theory Spec2Isabelle
  imports Main "HOL-Library.AList"
begin

section \<open>The emitter of \<open>src/index.ts\<close>\<close>

subsection \<open>Data model\<close>

text \<open>
  An event type is a key of the \<open>Map\<close> held in \<open>all\<close>: a string or a symbol. The
  wildcard identifier is the ordinary string \<open>'*'\<close>, stored in the same map as every
  other key.
\<close>

datatype key = Str string | Sym nat

definition wildcard :: key where
  "wildcard = Str ''*''"

text \<open>
  A handler is a JavaScript function. \<open>indexOf\<close> compares handlers by reference, so a
  handler is represented by its identity; what it does when called is looked up in a
  table of behaviours (see \<open>behaviours\<close> below).
\<close>

type_synonym hid = nat

text \<open>
  The values of the \<open>Map\<close> are array objects, and \<open>push\<close> and \<open>splice\<close> change an array
  in place: a change is seen under every key that holds the same array. So \<open>all\<close> maps a
  key to a reference, in insertion order as a \<open>Map\<close> does, and \<open>heap\<close> gives the
  elements of the array behind each reference. The record is extensible: the state that
  the handlers' own closures hold lives in the extension, where \<open>on\<close>, \<open>off\<close> and
  \<open>emit\<close> never look.
\<close>

type_synonym ref = nat

record emitter =
  all :: "(key \<times> ref) list"
  heap :: "ref \<Rightarrow> hid list"

text \<open>
  \<open>mitt(all?)\<close>: \<open>all = all || new Map()\<close>. A \<open>Map\<close> passed in is used as it is, with the
  arrays it holds.
\<close>

definition mitt :: "((key \<times> ref) list \<times> (ref \<Rightarrow> hid list)) option \<Rightarrow> emitter" where
  "mitt a = (case a of Some (m, arrays) \<Rightarrow> \<lparr>all = m, heap = arrays\<rparr>
                      | None \<Rightarrow> \<lparr>all = [], heap = (\<lambda>p. [])\<rparr>)"

text \<open>\<open>all.get(t)\<close>: the array object under a key, if there is one.\<close>

definition ref_of :: "'w emitter_scheme \<Rightarrow> key \<Rightarrow> ref option" where
  "ref_of s t = map_of (all s) t"

text \<open>The elements of the array under a key: \<open>None\<close> when the key is absent.\<close>

definition sequence_of :: "'w emitter_scheme \<Rightarrow> key \<Rightarrow> hid list option" where
  "sequence_of s t = map_option (heap s) (ref_of s t)"

text \<open>The same, with the empty sequence for an absent key.\<close>

definition handlers_of :: "'w emitter_scheme \<Rightarrow> key \<Rightarrow> hid list" where
  "handlers_of s t = (case ref_of s t of None \<Rightarrow> [] | Some p \<Rightarrow> heap s p)"


text \<open>
  An array literal is a new object, different from every array the \<open>Map\<close> holds:
  \<open>all.set(type, [...])\<close> stores a reference that no key has, with the given elements.
\<close>

definition fresh_ref :: "(key \<times> ref) list \<Rightarrow> ref" where
  "fresh_ref m = Suc (foldr max (map snd m) 0)"

definition set_new :: "key \<Rightarrow> hid list \<Rightarrow> 'w emitter_scheme \<Rightarrow> 'w emitter_scheme" where
  "set_new type elems s =
     s\<lparr>all := AList.update type (fresh_ref (all s)) (all s),
       heap := (heap s)(fresh_ref (all s) := elems)\<rparr>"

subsection \<open>Array primitives used by \<open>off\<close>\<close>

text \<open>\<open>Array.prototype.indexOf\<close>: the first index holding the value, \<open>-1\<close> when there is none.\<close>

primrec indexOf :: "'a list \<Rightarrow> 'a \<Rightarrow> int" where
  "indexOf [] x = - 1"
| "indexOf (y # ys) x =
     (if y = x then 0
      else (let i = indexOf ys x in if i < 0 then - 1 else i + 1))"

text \<open>\<open>i >>> 0\<close>: the conversion of \<open>i\<close> to an unsigned 32-bit integer.\<close>

definition ushr0 :: "int \<Rightarrow> nat" where
  "ushr0 i = nat (i mod 4294967296)"

text \<open>
  \<open>Array.prototype.splice(start, deleteCount)\<close> for a non-negative \<open>start\<close> and no
  inserted items: the start is clamped to the length, the count to what is left.
\<close>

definition splice_array :: "nat \<Rightarrow> nat \<Rightarrow> 'a list \<Rightarrow> 'a list" where
  "splice_array start deleteCount xs =
     (let actualStart = min start (length xs);
          actualDeleteCount = min deleteCount (length xs - actualStart)
      in take actualStart xs @ drop (actualStart + actualDeleteCount) xs)"

text \<open>
  A JavaScript array has at most \<open>2^32 - 1\<close> elements; a HOL list has no such bound, so
  the bound is stated where \<open>>>> 0\<close> depends on it.
\<close>

definition array_ok :: "'a list \<Rightarrow> bool" where
  "array_ok xs \<longleftrightarrow> length xs < 4294967296"

subsection \<open>\<open>off\<close>\<close>

text \<open>
  \<open>off(type, handler?)\<close>. An omitted handler is \<open>None\<close>; a function value is always
  truthy, so \<open>if (handler)\<close> tests exactly whether the argument was given. With a handler,
  the array under \<open>type\<close> is spliced in place; without one, a new empty array is stored.
\<close>

definition off :: "key \<Rightarrow> hid option \<Rightarrow> 'w emitter_scheme \<Rightarrow> 'w emitter_scheme" where
  "off type handler s =
     (case ref_of s type of
        None \<Rightarrow> s
      | Some handlers \<Rightarrow>
          (case handler of
             Some h \<Rightarrow>
               s\<lparr>heap := (heap s)(handlers :=
                    splice_array (ushr0 (indexOf (heap s handlers) h)) 1 (heap s handlers))\<rparr>
           | None \<Rightarrow> set_new type [] s))"

subsection \<open>\<open>on\<close>\<close>

text \<open>
  \<open>_on(type, handler)\<close> pushes onto the existing array, in place, or stores a new array
  \<open>[handler]\<close>, and returns the closure \<open>() => off(type, handler)\<close> together with the
  updated emitter.
\<close>

definition priv_on ::
  "key \<Rightarrow> hid \<Rightarrow> 'w emitter_scheme \<Rightarrow> ('w emitter_scheme \<Rightarrow> 'w emitter_scheme) \<times> 'w emitter_scheme" where
  "priv_on type handler s =
     (\<lambda>r. off type (Some handler) r,
      (case ref_of s type of
         Some handlers \<Rightarrow> s\<lparr>heap := (heap s)(handlers := heap s handlers @ [handler])\<rparr>
       | None \<Rightarrow> set_new type [handler] s))"

text \<open>
  \<open>_onArray(types, handler)\<close>: \<open>types.forEach((type) => _on(type, handler))\<close>, and the
  closure \<open>() => types.forEach((type) => off(type, handler))\<close>.
\<close>

definition priv_onArray ::
  "key list \<Rightarrow> hid \<Rightarrow> 'w emitter_scheme \<Rightarrow> ('w emitter_scheme \<Rightarrow> 'w emitter_scheme) \<times> 'w emitter_scheme" where
  "priv_onArray types handler s =
     (\<lambda>r. fold (\<lambda>type r'. off type (Some handler) r') types r,
      fold (\<lambda>type s'. snd (priv_on type handler s')) types s)"

text \<open>The first argument of \<open>on\<close> is one key or an array of keys (\<open>Array.isArray\<close>).\<close>

datatype types = One key | Many "key list"

definition on ::
  "types \<Rightarrow> hid \<Rightarrow> 'w emitter_scheme \<Rightarrow> ('w emitter_scheme \<Rightarrow> 'w emitter_scheme) \<times> 'w emitter_scheme" where
  "on type handler s =
     (case type of
        Many ts \<Rightarrow> priv_onArray ts handler s
      | One t \<Rightarrow> priv_on t handler s)"


text \<open>How many of the identifiers \<open>ts\<close>, counted as often as they are listed, hold the array \<open>p\<close>.\<close>

definition holders :: "'w emitter_scheme \<Rightarrow> key list \<Rightarrow> ref \<Rightarrow> nat" where
  "holders r ts p = length (filter (\<lambda>k. ref_of r k = Some p) ts)"

subsection \<open>\<open>emit\<close>\<close>

text \<open>
  A type-matched handler is called as \<open>handler(evt)\<close>, a wildcard handler as
  \<open>handler(type, evt)\<close>.
\<close>

datatype 'v args = Typed 'v | Wild key 'v

text \<open>A call either returns or throws; \<open>emit\<close> has no \<open>try\<close>.\<close>

datatype 'e completion = Returned | Threw 'e

text \<open>
  What each handler does when called: it may change the emitter (calling \<open>on\<close>, \<open>off\<close>,
  or writing to \<open>all\<close>) and its own state, and return or throw. A handler that never
  returns is outside this model.
\<close>

type_synonym ('v, 'e, 'w) behaviours =
  "hid \<Rightarrow> 'v args \<Rightarrow> 'w emitter_scheme \<Rightarrow> 'e completion \<times> 'w emitter_scheme"

text \<open>
  \<open>snapshot.map((handler) => { handler(...) })\<close> over the copy made by \<open>slice()\<close>, a
  list of the elements the array had at that moment, which no later \<open>push\<close> or \<open>splice\<close>
  reaches: the handlers are called in index order, each on the state its predecessor left, and a throw
  leaves the loop. The result lists the calls made, in order.
\<close>

fun invoke_each ::
  "('v, 'e, 'w) behaviours \<Rightarrow> 'v args \<Rightarrow> hid list \<Rightarrow> 'w emitter_scheme \<Rightarrow>
     (hid \<times> 'v args) list \<times> 'e completion \<times> 'w emitter_scheme" where
  "invoke_each env a [] s = ([], Returned, s)"
| "invoke_each env a (h # hs) s =
     (case env h a s of
        (Threw e, s') \<Rightarrow> ([(h, a)], Threw e, s')
      | (Returned, s') \<Rightarrow>
          (case invoke_each env a hs s' of
             (calls, c, s'') \<Rightarrow> ((h, a) # calls, c, s'')))"

text \<open>
  The first block of \<open>emit\<close>: \<open>handlers = all.get(type)\<close>; if there is a sequence, its copy
  is run with \<open>handler(evt)\<close>.
\<close>

definition typed_pass ::
  "('v, 'e, 'w) behaviours \<Rightarrow> key \<Rightarrow> 'v \<Rightarrow> 'w emitter_scheme \<Rightarrow>
     (hid \<times> 'v args) list \<times> 'e completion \<times> 'w emitter_scheme" where
  "typed_pass env type evt s =
     (case ref_of s type of
        None \<Rightarrow> ([], Returned, s)
      | Some handlers \<Rightarrow> invoke_each env (Typed evt) (heap s handlers) s)"

text \<open>
  The second block: \<open>handlers = all.get('*')\<close>; if there is a sequence, its copy is run
  with \<open>handler(type, evt)\<close>.
\<close>

definition wildcard_pass ::
  "('v, 'e, 'w) behaviours \<Rightarrow> key \<Rightarrow> 'v \<Rightarrow> 'w emitter_scheme \<Rightarrow>
     (hid \<times> 'v args) list \<times> 'e completion \<times> 'w emitter_scheme" where
  "wildcard_pass env type evt s =
     (case ref_of s wildcard of
        None \<Rightarrow> ([], Returned, s)
      | Some handlers \<Rightarrow> invoke_each env (Wild type evt) (heap s handlers) s)"

text \<open>
  \<open>emit(type, evt)\<close>: the first block, then the second on the state the first one left.
  A throw in the first block leaves \<open>emit\<close>, so the second block is not reached.
\<close>

definition emit ::
  "('v, 'e, 'w) behaviours \<Rightarrow> key \<Rightarrow> 'v \<Rightarrow> 'w emitter_scheme \<Rightarrow>
     (hid \<times> 'v args) list \<times> 'e completion \<times> 'w emitter_scheme" where
  "emit env type evt s =
     (case typed_pass env type evt s of
        (calls1, Threw e, s1) \<Rightarrow> (calls1, Threw e, s1)
      | (calls1, Returned, s1) \<Rightarrow>
          (case wildcard_pass env type evt s1 of
             (calls2, c, s2) \<Rightarrow> (calls1 @ calls2, c, s2)))"

text \<open>Whether a recorded call is a type-matched one, \<open>handler(evt)\<close>.\<close>

fun is_typed :: "'v args \<Rightarrow> bool" where
  "is_typed (Typed _) = True"
| "is_typed (Wild _ _) = False"

text \<open>The three parts of such a result: the calls made, how it ended, the state left.\<close>

definition invoked :: "'a \<times> 'b \<times> 'c \<Rightarrow> 'a" where
  "invoked r = fst r"

definition outcome :: "'a \<times> 'b \<times> 'c \<Rightarrow> 'b" where
  "outcome r = fst (snd r)"

definition final :: "'a \<times> 'b \<times> 'c \<Rightarrow> 'c" where
  "final r = snd (snd r)"

subsection \<open>Handlers used in the examples\<close>

text \<open>Every handler returns and leaves the emitter as it is.\<close>

definition quiet :: "('v, 'e, 'w) behaviours" where
  "quiet h a r = (Returned, r)"

text \<open>Handler \<open>g\<close> throws \<open>e\<close>; every other handler returns.\<close>

definition thrower :: "hid \<Rightarrow> 'e \<Rightarrow> ('v, 'e, 'w) behaviours" where
  "thrower g e h a r = (if h = g then (Threw e, r) else (Returned, r))"

text \<open>Handler \<open>g\<close> calls \<open>on(t, hNew)\<close> and returns; every other handler returns.\<close>

definition registrar :: "hid \<Rightarrow> key \<Rightarrow> hid \<Rightarrow> ('v, 'e, 'w) behaviours" where
  "registrar g t hNew h a r =
     (if h = g then (Returned, snd (on (One t) hNew r)) else (Returned, r))"


section \<open>Properties\<close>

subsection \<open>Arrays\<close>

lemma indexOf_absent: "x \<notin> set xs \<Longrightarrow> indexOf xs x = - 1"
  by (induction xs) (auto simp: Let_def)

lemma indexOf_present:
  "x \<in> set xs \<Longrightarrow> 0 \<le> indexOf xs x \<and> indexOf xs x < int (length xs)"
  by (induction xs) (auto simp: Let_def)

lemma indexOf_remove1:
  "x \<in> set xs \<Longrightarrow>
     take (nat (indexOf xs x)) xs @ drop (Suc (nat (indexOf xs x))) xs = remove1 x xs"
proof (induction xs)
  case Nil
  then show ?case by simp
next
  case (Cons y ys)
  show ?case
  proof (cases "y = x")
    case True
    then show ?thesis by simp
  next
    case False
    with Cons.prems have mem: "x \<in> set ys" by simp
    from indexOf_present [OF mem] have nn: "0 \<le> indexOf ys x" by simp
    then have "nat (indexOf ys x + 1) = Suc (nat (indexOf ys x))" by simp
    with False nn Cons.IH [OF mem] show ?thesis by (simp add: Let_def)
  qed
qed

lemma splice_indexOf:
  assumes "array_ok xs"
  shows "splice_array (ushr0 (indexOf xs x)) 1 xs = remove1 x xs"
proof (cases "x \<in> set xs")
  case True
  from indexOf_present [OF True]
  have b: "0 \<le> indexOf xs x" "indexOf xs x < int (length xs)" by simp_all
  with assms have "indexOf xs x < 4294967296" by (simp add: array_ok_def)
  with b have u: "ushr0 (indexOf xs x) = nat (indexOf xs x)" by (simp add: ushr0_def)
  from b have lt: "nat (indexOf xs x) < length xs" by simp
  then have "splice_array (nat (indexOf xs x)) 1 xs
      = take (nat (indexOf xs x)) xs @ drop (Suc (nat (indexOf xs x))) xs"
    by (simp add: splice_array_def Let_def min_def)
  with u indexOf_remove1 [OF True] show ?thesis by simp
next
  case False
  then have "ushr0 (indexOf xs x) = 4294967295" by (simp add: indexOf_absent ushr0_def)
  moreover from assms have "length xs \<le> 4294967295" by (simp add: array_ok_def)
  ultimately have "splice_array (ushr0 (indexOf xs x)) 1 xs = xs"
    by (simp add: splice_array_def Let_def min_def)
  with False show ?thesis by (simp add: remove1_idem)
qed

subsection \<open>The registry and its arrays\<close>

lemma fresh_ref_above: "(k, p) \<in> set m \<Longrightarrow> p < fresh_ref m"
  unfolding fresh_ref_def by (induction m) auto

lemma ref_of_below_fresh: "ref_of s k = Some p \<Longrightarrow> p < fresh_ref (all s)"
  unfolding ref_of_def by (auto dest: map_of_SomeD fresh_ref_above)

lemma ref_of_not_fresh: "ref_of s k \<noteq> Some (fresh_ref (all s))"
  using ref_of_below_fresh [of s k "fresh_ref (all s)"] by auto

lemma ref_of_heap_update [simp]: "ref_of (s\<lparr>heap := f\<rparr>) k = ref_of s k"
  by (simp add: ref_of_def)

lemma ref_of_set_new:
  "ref_of (set_new t xs s) k = (if k = t then Some (fresh_ref (all s)) else ref_of s k)"
  by (simp add: ref_of_def set_new_def update_conv')

lemma heap_set_new: "heap (set_new t xs s) = (heap s)(fresh_ref (all s) := xs)"
  by (simp add: set_new_def)

lemma sequence_of_set_new:
  "sequence_of (set_new t xs s) k = (if k = t then Some xs else sequence_of s k)"
  using ref_of_not_fresh [of s k]
  by (cases "ref_of s k") (simp_all add: sequence_of_def ref_of_set_new heap_set_new)

lemma handlers_of_sequence:
  "handlers_of s t = (case sequence_of s t of None \<Rightarrow> [] | Some xs \<Rightarrow> xs)"
  by (cases "ref_of s t") (simp_all add: handlers_of_def sequence_of_def)

lemma handlers_of_set_new:
  "handlers_of (set_new t xs s) k = (if k = t then xs else handlers_of s k)"
  by (simp add: handlers_of_sequence sequence_of_set_new)

lemma sequence_of_SomeD:
  "sequence_of s t = Some xs \<Longrightarrow> \<exists>p. ref_of s t = Some p \<and> heap s p = xs"
  by (cases "ref_of s t") (simp_all add: sequence_of_def)

lemma sequence_of_None: "sequence_of s t = None \<longleftrightarrow> ref_of s t = None"
  by (simp add: sequence_of_def)

subsection \<open>\<open>off\<close> on the registry\<close>


lemma off_handler:
  "ref_of s t = Some p \<Longrightarrow> array_ok (heap s p) \<Longrightarrow>
     off t (Some h) s = s\<lparr>heap := (heap s)(p := remove1 h (heap s p))\<rparr>"
  by (simp add: off_def splice_indexOf del: One_nat_def)

lemma off_clear: "ref_of s t = Some p \<Longrightarrow> off t None s = set_new t [] s"
  by (simp add: off_def)

lemma off_not_found:
  "ref_of s t = Some p \<Longrightarrow> array_ok (heap s p) \<Longrightarrow> h \<notin> set (heap s p) \<Longrightarrow>
     off t (Some h) s = s"
  by (simp add: off_handler remove1_idem)

lemma array_ok_remove1: "array_ok xs \<Longrightarrow> array_ok (remove1 h xs)"
  unfolding array_ok_def using length_remove1 [of h xs] by (simp split: if_splits)

lemma count_list_remove1: "count_list (remove1 h xs) h = count_list xs h - 1"
  by (induction xs) auto

lemma remove1_first: "h \<notin> set ys \<Longrightarrow> remove1 h (ys @ h # zs) = ys @ zs"
  by (simp add: remove1_append)

text \<open>
  C2. When \<open>t\<close> has a sequence \<open>xs\<close> (a JavaScript array, so shorter than \<open>2^32\<close>),
  \<open>off(t, h)\<close> leaves under \<open>t\<close> the sequence \<open>xs\<close> without its first \<open>h\<close>: if
  \<open>xs = ys @ h # zs\<close> with no \<open>h\<close> in \<open>ys\<close> the result is \<open>ys @ zs\<close>, so one occurrence
  fewer; if \<open>h\<close> does not occur the emitter is unchanged. The \<open>Map\<close> keeps its keys and
  its array objects: a key holding another array keeps its sequence, a key holding the
  array of \<open>t\<close> shows the same removal. If \<open>h\<close> occurs twice, one call leaves one
  occurrence and a second call none.
\<close>

theorem off_removes_first_occurrence:
  assumes "sequence_of s t = Some xs" and "array_ok xs"
  shows "sequence_of (off t (Some h) s) t = Some (remove1 h xs)
    \<and> (\<forall>ys zs. xs = ys @ h # zs \<and> h \<notin> set ys \<longrightarrow>
          sequence_of (off t (Some h) s) t = Some (ys @ zs))
    \<and> count_list (handlers_of (off t (Some h) s) t) h = count_list xs h - 1
    \<and> (h \<notin> set xs \<longrightarrow> off t (Some h) s = s)
    \<and> all (off t (Some h) s) = all s
    \<and> (\<forall>t'. ref_of s t' \<noteq> ref_of s t \<longrightarrow>
          sequence_of (off t (Some h) s) t' = sequence_of s t')
    \<and> (\<forall>t'. ref_of s t' = ref_of s t \<longrightarrow>
          sequence_of (off t (Some h) s) t' = Some (remove1 h xs))
    \<and> (count_list xs h = 2 \<longrightarrow>
         count_list (handlers_of (off t (Some h) s) t) h = 1
       \<and> count_list (handlers_of (off t (Some h) (off t (Some h) s)) t) h = 0)"
proof -
  let ?s1 = "off t (Some h) s"
  from assms(1) obtain p where p: "ref_of s t = Some p" and hp: "heap s p = xs"
    by (auto dest: sequence_of_SomeD)
  from assms(2) hp have ok: "array_ok (heap s p)" by simp
  have s1: "?s1 = s\<lparr>heap := (heap s)(p := remove1 h xs)\<rparr>"
    using off_handler [OF p ok, of h] hp by simp
  have p1: "ref_of ?s1 t = Some p" and hp1: "heap ?s1 p = remove1 h xs"
    using p by (simp_all add: s1)
  have a1: "sequence_of ?s1 t = Some (remove1 h xs)"
    using p by (simp add: s1 sequence_of_def)
  have ok1: "array_ok (heap ?s1 p)" using assms(2) hp1 by (simp add: array_ok_remove1)
  have s2: "off t (Some h) ?s1 = ?s1\<lparr>heap := (heap ?s1)(p := remove1 h (remove1 h xs))\<rparr>"
    using off_handler [OF p1 ok1, of h] hp1 by simp
  have h1: "handlers_of ?s1 t = remove1 h xs"
    using a1 by (simp add: handlers_of_sequence)
  have h2: "handlers_of (off t (Some h) ?s1) t = remove1 h (remove1 h xs)"
    using p1 by (simp add: s2 handlers_of_def)
  have c1: "count_list (handlers_of ?s1 t) h = count_list xs h - 1"
    by (simp add: h1 count_list_remove1)
  have c2: "count_list (handlers_of (off t (Some h) ?s1) t) h = count_list xs h - 1 - 1"
    by (simp add: h2 count_list_remove1)
  have first: "\<forall>ys zs. xs = ys @ h # zs \<and> h \<notin> set ys \<longrightarrow> sequence_of ?s1 t = Some (ys @ zs)"
    using a1 by (auto simp: remove1_first)
  have same: "h \<notin> set xs \<longrightarrow> ?s1 = s"
    using p ok hp by (simp add: off_not_found)
  have keys: "all ?s1 = all s" by (simp add: s1)
  have other: "\<forall>t'. ref_of s t' \<noteq> ref_of s t \<longrightarrow> sequence_of ?s1 t' = sequence_of s t'"
  proof (intro allI impI)
    fix t' assume "ref_of s t' \<noteq> ref_of s t"
    with p show "sequence_of ?s1 t' = sequence_of s t'"
      by (cases "ref_of s t'") (simp_all add: s1 sequence_of_def)
  qed
  have shared: "\<forall>t'. ref_of s t' = ref_of s t \<longrightarrow> sequence_of ?s1 t' = Some (remove1 h xs)"
    using p by (simp add: s1 sequence_of_def)
  from a1 first c1 same keys other shared c2 show ?thesis by simp
qed

theorem off_removes_first_occurrence_witness:
  "sequence_of \<lparr>all = [(Str ''a'', 0), (Str ''b'', 0), (Str ''c'', 1)],
                 heap = (\<lambda>p. [])(0 := [1, 2, 1], 1 := [1])\<rparr> (Str ''a'') = Some [1, 2, 1]
   \<and> array_ok [1 :: hid, 2, 1]
   \<and> sequence_of (off (Str ''a'') (Some 1)
         \<lparr>all = [(Str ''a'', 0), (Str ''b'', 0), (Str ''c'', 1)],
          heap = (\<lambda>p. [])(0 := [1, 2, 1], 1 := [1])\<rparr>) (Str ''a'') = Some [2, 1]
   \<and> sequence_of (off (Str ''a'') (Some 1)
         \<lparr>all = [(Str ''a'', 0), (Str ''b'', 0), (Str ''c'', 1)],
          heap = (\<lambda>p. [])(0 := [1, 2, 1], 1 := [1])\<rparr>) (Str ''b'') = Some [2, 1]
   \<and> sequence_of (off (Str ''a'') (Some 1)
         \<lparr>all = [(Str ''a'', 0), (Str ''b'', 0), (Str ''c'', 1)],
          heap = (\<lambda>p. [])(0 := [1, 2, 1], 1 := [1])\<rparr>) (Str ''c'') = Some [1]
   \<and> count_list (handlers_of (off (Str ''a'') (Some 1) (off (Str ''a'') (Some 1)
         \<lparr>all = [(Str ''a'', 0), (Str ''b'', 0), (Str ''c'', 1)],
          heap = (\<lambda>p. [])(0 := [1, 2, 1], 1 := [1])\<rparr>)) (Str ''a'')) 1 = 0"
proof -
  let ?S = "\<lparr>all = [(Str ''a'', 0), (Str ''b'', 0), (Str ''c'', 1)],
          heap = (\<lambda>p. [])(0 := [1, 2, 1], 1 := [1])\<rparr>"
  have h1: "sequence_of ?S (Str ''a'') = Some [1, 2, 1]"
    by (simp add: sequence_of_def ref_of_def)
  have h2: "array_ok [1 :: hid, 2, 1]" by (simp add: array_ok_def)
  have rb: "ref_of ?S (Str ''b'') = ref_of ?S (Str ''a'')" by (simp add: ref_of_def)
  have rc: "ref_of ?S (Str ''c'') \<noteq> ref_of ?S (Str ''a'')" by (simp add: ref_of_def)
  have sc: "sequence_of ?S (Str ''c'') = Some [1]" by (simp add: sequence_of_def ref_of_def)
  have two: "count_list [1 :: hid, 2, 1] 1 = 2" by simp
  note T = off_removes_first_occurrence [OF h1 h2, of 1]
  from T have a: "sequence_of (off (Str ''a'') (Some 1) ?S) (Str ''a'') = Some [2, 1]"
    by simp
  from T rb have b: "sequence_of (off (Str ''a'') (Some 1) ?S) (Str ''b'') = Some [2, 1]"
    by simp
  from T rc sc have c: "sequence_of (off (Str ''a'') (Some 1) ?S) (Str ''c'') = Some [1]"
    by simp
  from T two have d: "count_list (handlers_of (off (Str ''a'') (Some 1)
      (off (Str ''a'') (Some 1) ?S)) (Str ''a'')) 1 = 0"
    by blast
  from h1 h2 a b c d show ?thesis by (intro conjI)
qed


subsection \<open>The dispatch loop\<close>

lemma invoke_each_returned:
  "invoke_each env a hs s = (calls, Returned, s') \<Longrightarrow> calls = map (\<lambda>h. (h, a)) hs"
  by (induction hs arbitrary: s calls)
     (auto split: prod.splits completion.splits)

lemma invoke_each_append:
  "invoke_each env a (xs @ ys) s =
     (case invoke_each env a xs s of
        (calls1, Threw e, s1) \<Rightarrow> (calls1, Threw e, s1)
      | (calls1, Returned, s1) \<Rightarrow>
          (case invoke_each env a ys s1 of (calls2, c, s2) \<Rightarrow> (calls1 @ calls2, c, s2)))"
  by (induction xs arbitrary: s) (auto split: prod.splits completion.splits)

lemma invoke_each_prefix:
  "\<exists>n \<le> length hs. fst (invoke_each env a hs s) = map (\<lambda>h. (h, a)) (take n hs)"
proof (induction hs arbitrary: s)
  case Nil
  then show ?case by simp
next
  case (Cons h hs)
  obtain c s' where step: "env h a s = (c, s')" by (cases "env h a s")
  show ?case
  proof (cases c)
    case Returned
    from Cons.IH [of s'] obtain n where
      n: "n \<le> length hs" "fst (invoke_each env a hs s') = map (\<lambda>h. (h, a)) (take n hs)"
      by blast
    with step Returned have
      "fst (invoke_each env a (h # hs) s) = map (\<lambda>h. (h, a)) (take (Suc n) (h # hs))"
      by (auto split: prod.splits)
    with n(1) show ?thesis by (intro exI [of _ "Suc n"]) simp
  next
    case (Threw e)
    with step have "fst (invoke_each env a (h # hs) s) = map (\<lambda>h. (h, a)) (take 1 (h # hs))"
      by simp
    then show ?thesis by (intro exI [of _ 1]) simp
  qed
qed

lemma invoke_each_throw_at:
  assumes "invoke_each env a pre s = (calls, Returned, s1)"
    and "env h a s1 = (Threw e, s2)"
  shows "invoke_each env a (pre @ h # post) s = (map (\<lambda>g. (g, a)) (pre @ [h]), Threw e, s2)"
  using assms invoke_each_returned [OF assms(1)]
  by (simp add: invoke_each_append)

lemma invoke_each_invariant:
  assumes "\<And>g r. P r \<Longrightarrow> P (snd (env g a r))" and "P s"
  shows "P (snd (snd (invoke_each env a hs s)))"
  using assms(2)
proof (induction hs arbitrary: s)
  case Nil
  then show ?case by simp
next
  case (Cons h hs)
  obtain c s' where step: "env h a s = (c, s')" by (cases "env h a s")
  from assms(1) [OF Cons.prems, of h] step have P': "P s'" by simp
  show ?case
  proof (cases c)
    case Returned
    with step Cons.IH [OF P'] show ?thesis by (auto split: prod.splits)
  next
    case (Threw e)
    with step P' show ?thesis by simp
  qed
qed

lemma invoke_each_establish:
  assumes keep: "\<And>g r. P r \<Longrightarrow> P (snd (env g a r))"
    and est: "\<And>r. P (snd (env h a r))"
    and mem: "h \<in> set hs"
    and ret: "fst (snd (invoke_each env a hs s)) = Returned"
  shows "P (snd (snd (invoke_each env a hs s)))"
proof -
  from mem obtain pre post where hs: "hs = pre @ h # post" by (auto simp: in_set_conv_decomp)
  obtain c1 r1 s1 where pre: "invoke_each env a pre s = (c1, r1, s1)"
    by (cases "invoke_each env a pre s")
  obtain c s2 where step: "env h a s1 = (c, s2)" by (cases "env h a s1")
  from est [of s1] step have P2: "P s2" by simp
  from ret hs pre have r1: "r1 = Returned"
    by (cases r1) (simp_all add: invoke_each_append)
  from ret hs pre r1 step have c: "c = Returned"
    by (cases c) (simp_all add: invoke_each_append split: prod.splits)
  from invoke_each_invariant [of P env a s2 post, OF keep P2]
  have "P (snd (snd (invoke_each env a post s2)))" .
  with hs pre r1 step c show ?thesis
    by (auto simp: invoke_each_append split: prod.splits)
qed

lemma invoke_each_all_return:
  assumes "\<And>g r. fst (env g a r) = Returned"
  shows "outcome (invoke_each env a hs s) = Returned"
proof (induction hs arbitrary: s)
  case Nil
  show ?case by (simp add: outcome_def)
next
  case (Cons h hs)
  obtain c s' where step: "env h a s = (c, s')" by (cases "env h a s")
  with assms [of h s] have "c = Returned" by simp
  with step Cons.IH [of s'] show ?case
    by (auto simp: outcome_def split: prod.splits)
qed

lemma typed_pass_eq: "typed_pass env t v s = invoke_each env (Typed v) (handlers_of s t) s"
  by (simp add: typed_pass_def handlers_of_def split: option.splits)

lemma wildcard_pass_eq:
  "wildcard_pass env t v s = invoke_each env (Wild t v) (handlers_of s wildcard) s"
  by (simp add: wildcard_pass_def handlers_of_def split: option.splits)

lemma emit_returned:
  assumes "outcome (emit env t v s) = Returned"
  shows "outcome (typed_pass env t v s) = Returned"
    and "outcome (wildcard_pass env t v (final (typed_pass env t v s))) = Returned"
    and "invoked (emit env t v s) =
           map (\<lambda>h. (h, Typed v)) (handlers_of s t)
         @ map (\<lambda>h. (h, Wild t v)) (handlers_of (final (typed_pass env t v s)) wildcard)"
proof -
  obtain c1 r1 s1 where tp: "typed_pass env t v s = (c1, r1, s1)"
    by (cases "typed_pass env t v s")
  obtain c2 r2 s2 where wp: "wildcard_pass env t v s1 = (c2, r2, s2)"
    by (cases "wildcard_pass env t v s1")
  from assms tp have r1: "r1 = Returned"
    by (cases r1) (simp_all add: emit_def outcome_def)
  from assms tp wp r1 have r2: "r2 = Returned"
    by (simp add: emit_def outcome_def)
  from tp r1 show "outcome (typed_pass env t v s) = Returned" by (simp add: outcome_def)
  from tp wp r2 show "outcome (wildcard_pass env t v (final (typed_pass env t v s))) = Returned"
    by (simp add: outcome_def final_def)
  from tp r1 have c1: "c1 = map (\<lambda>h. (h, Typed v)) (handlers_of s t)"
    by (simp add: typed_pass_eq invoke_each_returned)
  from wp r2 have c2: "c2 = map (\<lambda>h. (h, Wild t v)) (handlers_of s1 wildcard)"
    by (simp add: wildcard_pass_eq invoke_each_returned)
  from tp wp r1 c1 c2
  show "invoked (emit env t v s) =
           map (\<lambda>h. (h, Typed v)) (handlers_of s t)
         @ map (\<lambda>h. (h, Wild t v)) (handlers_of (final (typed_pass env t v s)) wildcard)"
    by (simp add: emit_def invoked_def final_def)
qed


lemma emit_threw_typed:
  "typed_pass env t v s = (calls, Threw e, s1) \<Longrightarrow> emit env t v s = (calls, Threw e, s1)"
  by (simp add: emit_def)

lemma emit_after_typed:
  "typed_pass env t v s = (calls1, Returned, s1) \<Longrightarrow>
     wildcard_pass env t v s1 = (calls2, c, s2) \<Longrightarrow>
     emit env t v s = (calls1 @ calls2, c, s2)"
  by (simp add: emit_def)

lemma invoke_each_args: "c \<in> set (fst (invoke_each env a hs s)) \<Longrightarrow> snd c = a"
  using invoke_each_prefix [of hs env a s] by auto


subsection \<open>Registration\<close>


lemma handlers_of_priv_on:
  "handlers_of (snd (priv_on t h s)) k =
     (if k = t \<or> (ref_of s t \<noteq> None \<and> ref_of s k = ref_of s t)
      then handlers_of s k @ [h] else handlers_of s k)"
proof (cases "ref_of s t")
  case None
  then have "handlers_of s t = []" by (simp add: handlers_of_def)
  with None show ?thesis by (simp add: priv_on_def handlers_of_set_new)
next
  case (Some p)
  then show ?thesis
    by (cases "ref_of s k") (auto simp: priv_on_def handlers_of_def)
qed

lemma on_One_handlers:
  "handlers_of (snd (on (One t) h s)) k =
     (if k = t \<or> (ref_of s t \<noteq> None \<and> ref_of s k = ref_of s t)
      then handlers_of s k @ [h] else handlers_of s k)"
  by (simp add: on_def handlers_of_priv_on)

lemma on_One_same: "handlers_of (snd (on (One t) h s)) t = handlers_of s t @ [h]"
  by (simp add: on_One_handlers)

lemma on_One_member: "h \<in> set (handlers_of (snd (on (One t) h s)) t)"
  by (simp add: on_One_same)

lemma on_One_keeps:
  "g \<in> set (handlers_of s k) \<Longrightarrow> g \<in> set (handlers_of (snd (on (One t) h s)) k)"
  by (simp add: on_One_handlers)





subsection \<open>Order of the two passes\<close>






text \<open>
  C6. If the handlers before \<open>h\<close> in the pass return and \<open>h\<close> throws \<open>e\<close>, then \<open>emit\<close>
  ends by throwing \<open>e\<close>, in the state \<open>h\<close> left, and the call of \<open>h\<close> is the last call it
  made: in the type-matched pass neither the rest of the sequence nor any wildcard
  handler is called; in the wildcard pass the rest of the wildcard sequence is not called.
\<close>

theorem emit_handler_throws:
  "(handlers_of s t = pre @ h # post
      \<and> invoke_each env (Typed v) pre s = (calls, Returned, s1)
      \<and> env h (Typed v) s1 = (Threw e, s2)
      \<longrightarrow> emit env t v s = (map (\<lambda>g. (g, Typed v)) (pre @ [h]), Threw e, s2))
   \<and> (typed_pass env t v s = (calls1, Returned, s1')
      \<and> handlers_of s1' wildcard = pre' @ h' # post'
      \<and> invoke_each env (Wild t v) pre' s1' = (calls', Returned, s2')
      \<and> env h' (Wild t v) s2' = (Threw e', s3')
      \<longrightarrow> emit env t v s = (calls1 @ map (\<lambda>g. (g, Wild t v)) (pre' @ [h']), Threw e', s3'))"
proof (intro conjI impI)
  assume a: "handlers_of s t = pre @ h # post
      \<and> invoke_each env (Typed v) pre s = (calls, Returned, s1)
      \<and> env h (Typed v) s1 = (Threw e, s2)"
  then have "typed_pass env t v s = (map (\<lambda>g. (g, Typed v)) (pre @ [h]), Threw e, s2)"
    using invoke_each_throw_at [of env "Typed v" pre s calls s1 h e s2 post]
    by (simp add: typed_pass_eq)
  then show "emit env t v s = (map (\<lambda>g. (g, Typed v)) (pre @ [h]), Threw e, s2)"
    by (rule emit_threw_typed)
next
  assume a: "typed_pass env t v s = (calls1, Returned, s1')
      \<and> handlers_of s1' wildcard = pre' @ h' # post'
      \<and> invoke_each env (Wild t v) pre' s1' = (calls', Returned, s2')
      \<and> env h' (Wild t v) s2' = (Threw e', s3')"
  then have "wildcard_pass env t v s1' = (map (\<lambda>g. (g, Wild t v)) (pre' @ [h']), Threw e', s3')"
    using invoke_each_throw_at [of env "Wild t v" pre' s1' calls' s2' h' e' s3' post']
    by (simp add: wildcard_pass_eq)
  with a show "emit env t v s = (calls1 @ map (\<lambda>g. (g, Wild t v)) (pre' @ [h']), Threw e', s3')"
    by (simp add: emit_after_typed)
qed


theorem emit_handler_throws_witness:
  "emit (thrower 2 ''boom'') (Str ''foo'') (7 :: nat)
      \<lparr>all = [(Str ''foo'', 0), (wildcard, 1)], heap = (\<lambda>p. [])(0 := [1, 2, 3], 1 := [4, 5])\<rparr>
     = ([(1, Typed 7), (2, Typed 7)], Threw ''boom'',
        \<lparr>all = [(Str ''foo'', 0), (wildcard, 1)], heap = (\<lambda>p. [])(0 := [1, 2, 3], 1 := [4, 5])\<rparr>)
   \<and> emit (thrower 4 ''boom'') (Str ''foo'') (7 :: nat)
      \<lparr>all = [(Str ''foo'', 0), (wildcard, 1)], heap = (\<lambda>p. [])(0 := [1, 2, 3], 1 := [4, 5])\<rparr>
     = ([(1, Typed 7), (2, Typed 7), (3, Typed 7), (4, Wild (Str ''foo'') 7)], Threw ''boom'',
        \<lparr>all = [(Str ''foo'', 0), (wildcard, 1)], heap = (\<lambda>p. [])(0 := [1, 2, 3], 1 := [4, 5])\<rparr>)"
proof -
  let ?S = "\<lparr>all = [(Str ''foo'', 0), (wildcard, 1)], heap = (\<lambda>p. [])(0 := [1, 2, 3], 1 := [4, 5])\<rparr>"
  have first: "emit (thrower 2 ''boom'') (Str ''foo'') (7 :: nat) ?S
     = ([(1, Typed 7), (2, Typed 7)], Threw ''boom'', ?S)"
    using emit_handler_throws
      [where s = ?S and t = "Str ''foo''" and pre = "[1]" and h = 2 and post = "[3]"
         and env = "thrower 2 ''boom''" and v = "7 :: nat"
         and calls = "[(1, Typed 7)]" and ?s1.0 = ?S and e = "''boom''" and ?s2.0 = ?S]
    by (simp add: handlers_of_def thrower_def wildcard_def ref_of_def)
  have second: "emit (thrower 4 ''boom'') (Str ''foo'') (7 :: nat) ?S
     = ([(1, Typed 7), (2, Typed 7), (3, Typed 7), (4, Wild (Str ''foo'') 7)], Threw ''boom'', ?S)"
    using emit_handler_throws
      [where s = ?S and t = "Str ''foo''" and env = "thrower 4 ''boom''" and v = "7 :: nat"
         and ?calls1.0 = "[(1, Typed 7), (2, Typed 7), (3, Typed 7)]" and s1' = ?S
         and pre' = "[]" and h' = 4 and post' = "[5]" and calls' = "[]" and s2' = ?S
         and e' = "''boom''" and s3' = ?S]
    by (simp add: handlers_of_def thrower_def wildcard_def typed_pass_def ref_of_def)
  from first second show ?thesis by simp
qed


subsection \<open>Emitting a type without handlers\<close>

lemma emit_no_typed_handlers:
  assumes "handlers_of s t = []"
  shows "emit env t v s = wildcard_pass env t v s"
proof -
  from assms have "typed_pass env t v s = ([], Returned, s)" by (simp add: typed_pass_eq)
  then show ?thesis by (simp add: emit_def split: prod.splits)
qed

lemma wildcard_pass_no_typed_call:
  "filter (\<lambda>c. is_typed (snd c)) (invoked (wildcard_pass env t v s)) = []"
proof -
  have "\<forall>c \<in> set (fst (wildcard_pass env t v s)). snd c = Wild t v"
    using invoke_each_args [of _ env "Wild t v" "handlers_of s wildcard" s]
    by (simp add: wildcard_pass_eq)
  then show ?thesis by (simp add: filter_empty_conv invoked_def)
qed

lemma wildcard_pass_returned:
  "outcome (wildcard_pass env t v s) = Returned \<Longrightarrow>
     invoked (wildcard_pass env t v s) = map (\<lambda>h. (h, Wild t v)) (handlers_of s wildcard)"
  using invoke_each_returned [of env "Wild t v" "handlers_of s wildcard" s]
  by (cases "wildcard_pass env t v s") (simp add: wildcard_pass_eq outcome_def invoked_def)

text \<open>
  C7. When \<open>t\<close> has a sequence, \<open>off(t)\<close> stores the empty sequence under \<open>t\<close> (the key stays)
  and changes no other key. A following \<open>emit(t, v)\<close> is then exactly its wildcard pass: it
  makes no call \<open>handler(v)\<close>, and when it returns it has called every handler of the wildcard
  sequence with \<open>(t, v)\<close>; for \<open>t\<close> other than \<open>'*'\<close> that sequence is the one from before \<open>off\<close>.
  The empty sequence is a new array, which no key held before.
\<close>

theorem off_clears_type:
  assumes "sequence_of s t = Some xs"
  shows "sequence_of (off t None s) t = Some []
    \<and> (\<forall>k. k \<noteq> t \<longrightarrow> sequence_of (off t None s) k = sequence_of s k)
    \<and> emit env t v (off t None s) = wildcard_pass env t v (off t None s)
    \<and> filter (\<lambda>c. is_typed (snd c)) (invoked (emit env t v (off t None s))) = []
    \<and> (outcome (emit env t v (off t None s)) = Returned \<longrightarrow>
         invoked (emit env t v (off t None s))
           = map (\<lambda>h. (h, Wild t v)) (handlers_of (off t None s) wildcard))
    \<and> (t \<noteq> wildcard \<longrightarrow> handlers_of (off t None s) wildcard = handlers_of s wildcard)
    \<and> (\<forall>k. k \<noteq> t \<longrightarrow> ref_of (off t None s) k = ref_of s k)
    \<and> (\<forall>k. ref_of s k \<noteq> ref_of (off t None s) t)"
proof -
  let ?s1 = "off t None s"
  from assms obtain p where p: "ref_of s t = Some p" by (auto dest: sequence_of_SomeD)
  have s1: "?s1 = set_new t [] s" using p by (rule off_clear)
  have a: "sequence_of ?s1 t = Some []" by (simp add: s1 sequence_of_set_new)
  have frame: "\<forall>k. k \<noteq> t \<longrightarrow> sequence_of ?s1 k = sequence_of s k"
    by (simp add: s1 sequence_of_set_new)
  from a have "handlers_of ?s1 t = []" by (simp add: handlers_of_sequence)
  then have e: "emit env t v ?s1 = wildcard_pass env t v ?s1" by (rule emit_no_typed_handlers)
  have none: "filter (\<lambda>c. is_typed (snd c)) (invoked (emit env t v ?s1)) = []"
    unfolding e by (rule wildcard_pass_no_typed_call)
  have fire: "outcome (emit env t v ?s1) = Returned \<longrightarrow>
      invoked (emit env t v ?s1) = map (\<lambda>h. (h, Wild t v)) (handlers_of ?s1 wildcard)"
    unfolding e by (simp add: wildcard_pass_returned)
  have w: "t \<noteq> wildcard \<longrightarrow> handlers_of ?s1 wildcard = handlers_of s wildcard"
    by (simp add: s1 handlers_of_set_new)
  have refs: "\<forall>k. k \<noteq> t \<longrightarrow> ref_of ?s1 k = ref_of s k"
    by (simp add: s1 ref_of_set_new)
  have new: "\<forall>k. ref_of s k \<noteq> ref_of ?s1 t"
    by (simp add: s1 ref_of_set_new ref_of_not_fresh)
  from a frame e none fire w refs new show ?thesis by simp
qed

theorem off_clears_type_witness:
  "sequence_of \<lparr>all = [(Str ''foo'', 0), (Str ''bar'', 0), (wildcard, 1)],
                 heap = (\<lambda>p. [])(0 := [1, 2], 1 := [3])\<rparr> (Str ''foo'') = Some [1, 2]
   \<and> sequence_of (off (Str ''foo'') None
        \<lparr>all = [(Str ''foo'', 0), (Str ''bar'', 0), (wildcard, 1)],
         heap = (\<lambda>p. [])(0 := [1, 2], 1 := [3])\<rparr>) (Str ''foo'') = Some []
   \<and> sequence_of (off (Str ''foo'') None
        \<lparr>all = [(Str ''foo'', 0), (Str ''bar'', 0), (wildcard, 1)],
         heap = (\<lambda>p. [])(0 := [1, 2], 1 := [3])\<rparr>) (Str ''bar'') = Some [1, 2]
   \<and> invoked (emit (quiet :: (nat, unit, unit) behaviours) (Str ''foo'') 7
       (off (Str ''foo'') None
        \<lparr>all = [(Str ''foo'', 0), (Str ''bar'', 0), (wildcard, 1)],
         heap = (\<lambda>p. [])(0 := [1, 2], 1 := [3])\<rparr>)) = [(3, Wild (Str ''foo'') 7)]"
proof -
  let ?S = "\<lparr>all = [(Str ''foo'', 0), (Str ''bar'', 0), (wildcard, 1)],
         heap = (\<lambda>p. [])(0 := [1, 2], 1 := [3])\<rparr>"
  let ?Q = "quiet :: (nat, unit, unit) behaviours"
  have hyp: "sequence_of ?S (Str ''foo'') = Some [1, 2]"
    by (simp add: sequence_of_def ref_of_def)
  have bar: "sequence_of ?S (Str ''bar'') = Some [1, 2]"
    by (simp add: sequence_of_def ref_of_def)
  have ne: "Str ''foo'' \<noteq> wildcard" "Str ''bar'' \<noteq> Str ''foo''" by (simp_all add: wildcard_def)
  have w: "handlers_of ?S wildcard = [3]" by (simp add: handlers_of_def ref_of_def wildcard_def)
  note T = off_clears_type [OF hyp, of ?Q 7]
  have a: "sequence_of (off (Str ''foo'') None ?S) (Str ''foo'') = Some []"
    by (rule T [THEN conjunct1])
  from T ne(2) bar have b: "sequence_of (off (Str ''foo'') None ?S) (Str ''bar'') = Some [1, 2]"
    by simp
  from T ne(1) w have w1: "handlers_of (off (Str ''foo'') None ?S) wildcard = [3]"
    by simp
  have "outcome (emit ?Q (Str ''foo'') 7 (off (Str ''foo'') None ?S)) = Returned"
    unfolding T [THEN conjunct2, THEN conjunct2, THEN conjunct1]
    by (simp add: wildcard_pass_eq invoke_each_all_return quiet_def)
  with T have "invoked (emit ?Q (Str ''foo'') 7 (off (Str ''foo'') None ?S))
      = map (\<lambda>h. (h, Wild (Str ''foo'') 7)) (handlers_of (off (Str ''foo'') None ?S) wildcard)"
    by blast
  then have c: "invoked (emit ?Q (Str ''foo'') 7 (off (Str ''foo'') None ?S))
      = [(3, Wild (Str ''foo'') 7)]"
    unfolding w1 by simp
  from hyp a b c show ?thesis by (intro conjI)
qed

text \<open>
  C9. When \<open>t\<close> has no sequence, \<open>emit(t, v)\<close> is exactly its wildcard pass: it makes no call
  \<open>handler(v)\<close>, it ends as the wildcard pass ends, and when it returns it has called every
  wildcard handler with \<open>(t, v)\<close>. With no handler under \<open>t\<close> and none under \<open>'*'\<close>, and so
  on a new emitter, it calls nothing, returns, and leaves the emitter as it was.
\<close>

theorem emit_unregistered:
  "(sequence_of s t = None \<longrightarrow>
       emit env t v s = wildcard_pass env t v s
     \<and> filter (\<lambda>c. is_typed (snd c)) (invoked (emit env t v s)) = []
     \<and> (outcome (emit env t v s) = Returned \<longrightarrow>
          invoked (emit env t v s) = map (\<lambda>h. (h, Wild t v)) (handlers_of s wildcard)))
   \<and> (handlers_of s t = [] \<and> handlers_of s wildcard = [] \<longrightarrow>
        emit env t v s = ([], Returned, s))
   \<and> emit env0 t v (mitt None) = ([], Returned, mitt None)"
proof (intro conjI impI)
  assume none: "sequence_of s t = None"
  then have h: "handlers_of s t = []" by (simp add: handlers_of_sequence)
  then show e: "emit env t v s = wildcard_pass env t v s" by (rule emit_no_typed_handlers)
  show "filter (\<lambda>c. is_typed (snd c)) (invoked (emit env t v s)) = []"
    unfolding e by (rule wildcard_pass_no_typed_call)
  assume "outcome (emit env t v s) = Returned"
  then show "invoked (emit env t v s) = map (\<lambda>h. (h, Wild t v)) (handlers_of s wildcard)"
    unfolding e by (rule wildcard_pass_returned)
next
  assume "handlers_of s t = [] \<and> handlers_of s wildcard = []"
  then show "emit env t v s = ([], Returned, s)"
    by (simp add: emit_no_typed_handlers wildcard_pass_eq)
next
  have "handlers_of (mitt None) t = []" "handlers_of (mitt None) wildcard = []"
    by (simp_all add: handlers_of_def ref_of_def mitt_def)
  then show "emit env0 t v (mitt None) = ([], Returned, mitt None)"
    by (simp add: emit_no_typed_handlers wildcard_pass_eq)
qed

theorem emit_unregistered_witness:
  "sequence_of \<lparr>all = [(wildcard, 0)], heap = (\<lambda>p. [])(0 := [3])\<rparr> (Str ''unregistered'') = None
   \<and> emit quiet (Str ''unregistered'') (7 :: nat) \<lparr>all = [(wildcard, 0)], heap = (\<lambda>p. [])(0 := [3])\<rparr>
       = ([(3, Wild (Str ''unregistered'') 7)], Returned :: unit completion,
          \<lparr>all = [(wildcard, 0)], heap = (\<lambda>p. [])(0 := [3])\<rparr>)
   \<and> handlers_of (mitt None) (Str ''unregistered'') = []
   \<and> handlers_of (mitt None) wildcard = []
   \<and> emit quiet (Str ''unregistered'') (7 :: nat) (mitt None)
       = ([], Returned :: unit completion, mitt None)"
proof -
  let ?S = "\<lparr>all = [(wildcard, 0)], heap = (\<lambda>p. [])(0 := [3])\<rparr>"
  have hyp: "sequence_of ?S (Str ''unregistered'') = None"
    by (simp add: sequence_of_def ref_of_def wildcard_def)
  have wp: "wildcard_pass quiet (Str ''unregistered'') (7 :: nat) ?S
       = ([(3, Wild (Str ''unregistered'') 7)], Returned :: unit completion, ?S)"
    by (simp add: wildcard_pass_def quiet_def ref_of_def)
  have empty: "handlers_of (mitt None) (Str ''unregistered'') = []"
    "handlers_of (mitt None) wildcard = []"
    by (simp_all add: handlers_of_def ref_of_def mitt_def)
  from emit_unregistered
         [of ?S "Str ''unregistered''" "quiet :: (nat, unit, unit) behaviours" 7 quiet]
    hyp
  have "emit quiet (Str ''unregistered'') (7 :: nat) ?S
       = wildcard_pass (quiet :: (nat, unit, unit) behaviours) (Str ''unregistered'') 7 ?S"
    by blast
  with wp have a: "emit quiet (Str ''unregistered'') (7 :: nat) ?S
       = ([(3, Wild (Str ''unregistered'') 7)], Returned :: unit completion, ?S)"
    by simp
  from emit_unregistered
         [of "mitt None" "Str ''unregistered''" "quiet :: (nat, unit, unit) behaviours" 7 quiet]
    empty
  have b: "emit quiet (Str ''unregistered'') (7 :: nat) (mitt None)
       = ([], Returned :: unit completion, mitt None)"
    by blast
  from hyp a empty b show ?thesis by simp
qed


subsection \<open>Handlers that register handlers\<close>

lemma emit_all_return:
  assumes "\<And>g a r. fst (env g a r) = Returned"
  shows "outcome (emit env t v s) = Returned"
proof -
  obtain c1 r1 s1 where tp: "typed_pass env t v s = (c1, r1, s1)"
    by (cases "typed_pass env t v s")
  obtain c2 r2 s2 where wp: "wildcard_pass env t v s1 = (c2, r2, s2)"
    by (cases "wildcard_pass env t v s1")
  have "outcome (typed_pass env t v s) = Returned"
    unfolding typed_pass_eq by (rule invoke_each_all_return) (rule assms)
  with tp have r1: "r1 = Returned" by (simp add: outcome_def)
  have "outcome (wildcard_pass env t v s1) = Returned"
    unfolding wildcard_pass_eq by (rule invoke_each_all_return) (rule assms)
  with wp have r2: "r2 = Returned" by (simp add: outcome_def)
  from tp wp r1 r2 show ?thesis by (simp add: emit_def outcome_def)
qed




lemma typed_pass_establish:
  assumes "\<And>g r. P r \<Longrightarrow> P (snd (env g (Typed v) r))"
    and "\<And>r. P (snd (env h (Typed v) r))"
    and "h \<in> set (handlers_of s t)"
    and "outcome (typed_pass env t v s) = Returned"
  shows "P (final (typed_pass env t v s))"
  using invoke_each_establish [of P env "Typed v" h "handlers_of s t" s] assms
  by (simp add: typed_pass_eq final_def outcome_def)






text \<open>
  The condition on the arrays is needed: when \<open>t\<close> and \<open>'*'\<close> hold one array, the \<open>push\<close> of
  \<open>on(t, hNew)\<close> is seen under \<open>'*'\<close>, and the wildcard pass of the same \<open>emit\<close> calls \<open>hNew\<close>.
\<close>

lemma shared_array_reaches_wildcard_pass:
  "invoked (emit (registrar 1 (Str ''foo'') 2 :: (nat, unit, unit) behaviours) (Str ''foo'') 7
     \<lparr>all = [(Str ''foo'', 0), (wildcard, 0)], heap = (\<lambda>p. [])(0 := [1])\<rparr>)
   = [(1, Typed 7), (1, Wild (Str ''foo'') 7), (2, Wild (Str ''foo'') 7)]"
  by (simp add: emit_def typed_pass_def wildcard_pass_def registrar_def on_def priv_on_def
      wildcard_def ref_of_def invoked_def)

lemma emit_wildcard_calls:
  assumes "outcome (emit env t v s) = Returned"
  shows "filter (\<lambda>c. \<not> is_typed (snd c)) (invoked (emit env t v s))
       = map (\<lambda>h. (h, Wild t v)) (handlers_of (final (typed_pass env t v s)) wildcard)"
  by (simp add: emit_returned(3) [OF assms] filter_map o_def)

text \<open>
  C10. When \<open>emit(t, v)\<close> returns, its wildcard calls are \<open>handler(t, v)\<close> for the handlers
  of the wildcard sequence as it stands after the type-matched pass, not as it stood when
  \<open>emit\<close> began. So if a handler \<open>h\<close> of \<open>t\<close> calls \<open>on('*', hw)\<close> when called with \<open>v\<close>, no
  handler removes \<open>hw\<close> from the wildcard sequence, and \<open>emit(t, v)\<close> returns, then that call
  of \<open>emit\<close> has called \<open>hw(t, v)\<close>.
\<close>

theorem emit_wildcard_snapshot_late:
  "(outcome (emit env t v s) = Returned \<longrightarrow>
      filter (\<lambda>c. \<not> is_typed (snd c)) (invoked (emit env t v s))
        = map (\<lambda>h. (h, Wild t v)) (handlers_of (final (typed_pass env t v s)) wildcard))
   \<and> (h \<in> set (handlers_of s t)
      \<and> (\<forall>r. env h (Typed v) r = (Returned, snd (on (One wildcard) hw r)))
      \<and> (\<forall>g a r. hw \<in> set (handlers_of r wildcard) \<longrightarrow>
            hw \<in> set (handlers_of (snd (env g a r)) wildcard))
      \<and> outcome (emit env t v s) = Returned
      \<longrightarrow> (hw, Wild t v) \<in> set (invoked (emit env t v s)))"
proof (intro conjI impI)
  assume "outcome (emit env t v s) = Returned"
  then show "filter (\<lambda>c. \<not> is_typed (snd c)) (invoked (emit env t v s))
        = map (\<lambda>h. (h, Wild t v)) (handlers_of (final (typed_pass env t v s)) wildcard)"
    by (rule emit_wildcard_calls)
next
  let ?P = "\<lambda>r. hw \<in> set (handlers_of r wildcard)"
  assume a: "h \<in> set (handlers_of s t)
      \<and> (\<forall>r. env h (Typed v) r = (Returned, snd (on (One wildcard) hw r)))
      \<and> (\<forall>g a r. hw \<in> set (handlers_of r wildcard) \<longrightarrow>
            hw \<in> set (handlers_of (snd (env g a r)) wildcard))
      \<and> outcome (emit env t v s) = Returned"
  then have keep: "?P (snd (env g (Typed v) r))" if "?P r" for g r
    using that by blast
  from a have est: "?P (snd (env h (Typed v) r))" for r
    by (simp add: on_One_member)
  from a have mem: "h \<in> set (handlers_of s t)" by simp
  from a have ret: "outcome (typed_pass env t v s) = Returned"
    by (simp add: emit_returned(1))
  have "?P (final (typed_pass env t v s))"
    by (rule typed_pass_establish [of ?P env v h s t, OF keep est mem ret])
  moreover from a have "invoked (emit env t v s) =
        map (\<lambda>h. (h, Typed v)) (handlers_of s t)
      @ map (\<lambda>h. (h, Wild t v)) (handlers_of (final (typed_pass env t v s)) wildcard)"
    by (simp add: emit_returned(3))
  ultimately show "(hw, Wild t v) \<in> set (invoked (emit env t v s))"
    by auto
qed

theorem emit_wildcard_snapshot_late_witness:
  "1 \<in> set (handlers_of \<lparr>all = [(Str ''foo'', 0)], heap = (\<lambda>p. [])(0 := [1])\<rparr> (Str ''foo''))
   \<and> handlers_of \<lparr>all = [(Str ''foo'', 0)], heap = (\<lambda>p. [])(0 := [1])\<rparr> wildcard = []
   \<and> invoked (emit (registrar 1 wildcard 2 :: (nat, unit, unit) behaviours) (Str ''foo'') 7
         \<lparr>all = [(Str ''foo'', 0)], heap = (\<lambda>p. [])(0 := [1])\<rparr>)
       = [(1, Typed 7), (2, Wild (Str ''foo'') 7)]
   \<and> (2, Wild (Str ''foo'') 7) \<in> set (invoked
         (emit (registrar 1 wildcard 2 :: (nat, unit, unit) behaviours) (Str ''foo'') 7
            \<lparr>all = [(Str ''foo'', 0)], heap = (\<lambda>p. [])(0 := [1])\<rparr>))"
proof -
  let ?S = "\<lparr>all = [(Str ''foo'', 0)], heap = (\<lambda>p. [])(0 := [1])\<rparr>"
  let ?R = "registrar 1 wildcard 2 :: (nat, unit, unit) behaviours"
  have mem: "1 \<in> set (handlers_of ?S (Str ''foo''))" by (simp add: handlers_of_def ref_of_def)
  have none: "handlers_of ?S wildcard = []" by (simp add: handlers_of_def wildcard_def ref_of_def)
  have beh: "\<forall>r. ?R 1 (Typed 7) r = (Returned, snd (on (One wildcard) 2 r))"
    by (simp add: registrar_def)
  have keep: "\<forall>g a r. 2 \<in> set (handlers_of r wildcard) \<longrightarrow>
      2 \<in> set (handlers_of (snd (?R g a r)) wildcard)"
    by (simp add: registrar_def on_One_keeps)
  have out: "outcome (emit ?R (Str ''foo'') 7 ?S) = Returned"
    by (rule emit_all_return) (simp add: registrar_def)
  have run: "invoked (emit ?R (Str ''foo'') 7 ?S) = [(1, Typed 7), (2, Wild (Str ''foo'') 7)]"
    by (simp add: emit_def typed_pass_def wildcard_pass_def registrar_def on_def priv_on_def
        wildcard_def ref_of_def set_new_def fresh_ref_def invoked_def)
  from emit_wildcard_snapshot_late [of ?R "Str ''foo''" 7 ?S 1 2] mem beh keep out
  have "(2, Wild (Str ''foo'') 7) \<in> set (invoked (emit ?R (Str ''foo'') 7 ?S))"
    by blast
  with mem none run show ?thesis by blast
qed


subsection \<open>Registration under two identifiers\<close>















subsection \<open>The function returned by \<open>on\<close>\<close>




lemma holders_heap_update [simp]: "holders (r\<lparr>heap := f\<rparr>) ts p = holders r ts p"
  by (simp add: holders_def)

















end
